theory Spec2Isabelle
  imports Main "HOL-Library.Word"
begin

unbundle bit_operations_syntax

section \<open>The k0 execution engine (src/k0.cc)\<close>

text \<open>
  A shallow embedding of the register machine of \<^verbatim>\<open>src/k0.cc\<close>: the program model
  (\<^verbatim>\<open>Instruction\<close>, \<^verbatim>\<open>BasicBlock\<close>, \<^verbatim>\<open>Function\<close>), the frame
  (\<^verbatim>\<open>FunctionContext\<close> with \<^verbatim>\<open>Assign\<close>, \<^verbatim>\<open>GetVal\<close>, \<^verbatim>\<open>Allocate\<close>), and the engine
  (\<^verbatim>\<open>ExecuteInstruction\<close>, \<^verbatim>\<open>Execute\<close>, \<^verbatim>\<open>ExecuteEntry\<close>).

  Conventions of the embedding.
  \<^item> \<^verbatim>\<open>int64_t\<close> and \<^verbatim>\<open>size_t\<close> are \<open>64 word\<close>; \<^verbatim>\<open>uint8_t\<close> is \<open>8 word\<close>. Signed
    comparison reads a word with \<open>sint\<close>. The addition of two \<^verbatim>\<open>int64_t\<close> is the
    addition of the two's complement 64-bit machine the engine is compiled for, which
    wraps (the language itself leaves the overflow of a signed addition undefined).
  \<^item> \<^verbatim>\<open>std::map\<close> is a partial function where only lookups happen (\<open>reg_values\<close>,
    \<open>basic_blocks\<close>), and an association list with unique keys where the container is
    also walked (\<open>allocas\<close>, at destruction).
  \<^item> A pointer is its 64-bit address. Objects of type \<^verbatim>\<open>Function\<close> live in a table from
    addresses to functions, the program.
  \<^item> An outcome of one instruction is a successor state, a failed \<^verbatim>\<open>assert\<close> (the
    process aborts; assertions are compiled in, as the source is written), or undefined
    behaviour of C++ (an index past the end of a \<^verbatim>\<open>std::vector\<close>, a raw access outside
    a live allocation, a dangling pointer). A run that meets undefined behaviour ends
    there, with the result \<open>Undefined\<close>: it has no successor state to go on from.
\<close>

type_synonym i64 = "64 word"

subsection \<open>Program model\<close>

abbreviation (input) ALLOCA :: "8 word" where "ALLOCA \<equiv> 0"
abbreviation (input) IMM :: "8 word" where "IMM \<equiv> 1"
abbreviation (input) ADD :: "8 word" where "ADD \<equiv> 2"
abbreviation (input) CMP :: "8 word" where "CMP \<equiv> 3"
abbreviation (input) BR :: "8 word" where "BR \<equiv> 4"
abbreviation (input) CALL :: "8 word" where "CALL \<equiv> 5"
abbreviation (input) RET :: "8 word" where "RET \<equiv> 6"
abbreviation (input) COPY :: "8 word" where "COPY \<equiv> 7"
abbreviation (input) LOAD :: "8 word" where "LOAD \<equiv> 8"
abbreviation (input) STORE :: "8 word" where "STORE \<equiv> 9"
abbreviation (input) DEBUG :: "8 word" where "DEBUG \<equiv> 10"

abbreviation (input) LT :: i64 where "LT \<equiv> - 1"
abbreviation (input) EQ :: i64 where "EQ \<equiv> 0"
abbreviation (input) GT :: i64 where "GT \<equiv> 1"

record Instruction =
  op :: "8 word"
  operand :: "i64 list"

text \<open>\<^verbatim>\<open>Instruction::get\<close> indexes the operand vector; past its end the read is
  undefined (\<open>None\<close>).\<close>

definition get :: "Instruction \<Rightarrow> nat \<Rightarrow> i64 option" where
  "get i k = (if k < length (operand i) then Some (operand i ! k) else None)"

record BasicBlock =
  body :: "Instruction list"

record Function =
  name :: string
  entry :: i64
  basic_blocks :: "i64 \<rightharpoonup> BasicBlock"

text \<open>The program: the \<^verbatim>\<open>Function\<close> objects, by address.\<close>

type_synonym program = "i64 \<rightharpoonup> Function"

text \<open>\<^verbatim>\<open>PC\<close>: the function (its address), the block id and the instruction index. The
  index is a \<^verbatim>\<open>size_t\<close> that only counts up from 0 inside one body, so it is a natural
  number here.\<close>

record PC =
  pc_f :: i64
  ib :: i64
  ii :: nat

subsection \<open>The C heap\<close>

text \<open>
  \<open>live\<close> lists the blocks handed out by \<^verbatim>\<open>malloc\<close> and not yet freed, as (base, size);
  \<open>bytes\<close> holds the bytes that have been written. What \<^verbatim>\<open>malloc\<close> returns is not
  decided by the source: the allocator is a parameter, a function from the heap and the
  requested size to the address returned (0 for \<^verbatim>\<open>nullptr\<close>). A block just allocated
  holds no written byte.
\<close>

record memory =
  live :: "(i64 \<times> i64) list"
  bytes :: "i64 \<rightharpoonup> 8 word"

type_synonym allocator = "memory \<Rightarrow> i64 \<Rightarrow> i64"

definition in_block :: "i64 \<Rightarrow> i64 \<Rightarrow> i64 \<Rightarrow> bool" where
  "in_block b sz a = (unat b \<le> unat a \<and> unat a < unat b + unat sz)"

definition malloc :: "allocator \<Rightarrow> memory \<Rightarrow> i64 \<Rightarrow> i64 \<times> memory" where
  "malloc m h sz =
     (let b = m h sz in
      if b = 0 then (0, h)
      else (b, h\<lparr>live := (b, sz) # live h,
                 bytes := (\<lambda>a. if in_block b sz a then None else bytes h a)\<rparr>))"

text \<open>\<^verbatim>\<open>free\<close> of a pointer that is not the base of a live block is undefined.\<close>

definition free :: "memory \<Rightarrow> i64 \<Rightarrow> memory option" where
  "free h b =
     (if b = 0 then Some h
      else if b \<in> fst ` set (live h)
      then Some (h\<lparr>live := filter (\<lambda>blk. fst blk \<noteq> b) (live h)\<rparr>)
      else None)"

text \<open>An 8-byte access at address \<open>p\<close> is defined when the 8 bytes lie in one live block.
  Bytes are laid out least significant first.\<close>

definition accessible :: "memory \<Rightarrow> i64 \<Rightarrow> bool" where
  "accessible h p =
     list_ex (\<lambda>blk. unat (fst blk) \<le> unat p \<and> unat p + 8 \<le> unat (fst blk) + unat (snd blk))
       (live h)"

fun le_word :: "8 word list \<Rightarrow> i64" where
  "le_word [] = 0"
| "le_word (b # bs) = ucast b + push_bit 8 (le_word bs)"

definition read_i64 :: "memory \<Rightarrow> i64 \<Rightarrow> i64 option" where
  "read_i64 h p =
     (if accessible h p then
        (let bs = map (\<lambda>k. bytes h (p + of_nat k)) [0..<8]
         in if list_ex (\<lambda>b. b = None) bs then None else Some (le_word (map the bs)))
      else None)"

definition write_i64 :: "memory \<Rightarrow> i64 \<Rightarrow> i64 \<Rightarrow> memory option" where
  "write_i64 h p v =
     (if accessible h p then
        Some (h\<lparr>bytes := (\<lambda>a. if unat (a - p) < 8
                               then Some (ucast (drop_bit (8 * unat (a - p)) v))
                               else bytes h a)\<rparr>)
      else None)"

subsection \<open>Execution frame\<close>

record Alloca =
  base :: i64
  alloca_size :: i64

text \<open>\<^verbatim>\<open>Alloca::~Alloca\<close>: frees the block unless the base is null.\<close>

definition Alloca_dtor :: "memory \<Rightarrow> Alloca \<Rightarrow> memory option" where
  "Alloca_dtor h a = (if base a \<noteq> 0 then free h (base a) else Some h)"

record FunctionContext =
  allocas :: "(i64 \<times> Alloca) list"
  reg_values :: "i64 \<rightharpoonup> i64"
  pc :: PC

definition Assign :: "FunctionContext \<Rightarrow> i64 \<Rightarrow> i64 \<Rightarrow> FunctionContext" where
  "Assign ctx reg val = ctx\<lparr>reg_values := (reg_values ctx)(reg \<mapsto> val)\<rparr>"

text \<open>\<^verbatim>\<open>GetVal\<close> is \<^verbatim>\<open>values[reg]\<close>: \<^verbatim>\<open>operator[]\<close> of \<^verbatim>\<open>std::map\<close> inserts a
  value-initialised entry for a missing key and returns it.\<close>

definition GetVal :: "FunctionContext \<Rightarrow> i64 \<Rightarrow> i64 \<times> FunctionContext" where
  "GetVal ctx reg =
     (case reg_values ctx reg of
        Some v \<Rightarrow> (v, ctx)
      | None \<Rightarrow> (0, ctx\<lparr>reg_values := (reg_values ctx)(reg \<mapsto> 0)\<rparr>))"

text \<open>
  \<^verbatim>\<open>Allocate\<close>: \<^verbatim>\<open>malloc\<close>, bind the register, then \<^verbatim>\<open>allocas.insert\<close>, which inserts
  only when the key is absent. When the key is present the \<^verbatim>\<open>unique_ptr\<close> moved into
  the argument of \<^verbatim>\<open>insert\<close> still owns the new \<^verbatim>\<open>Alloca\<close> and destroys it at the end
  of the statement.
\<close>

definition Allocate ::
  "allocator \<Rightarrow> FunctionContext \<Rightarrow> memory \<Rightarrow> i64 \<Rightarrow> i64 \<Rightarrow> (FunctionContext \<times> memory) option"
where
  "Allocate m ctx h reg sz =
     (let (b, h1) = malloc m h sz;
          a = \<lparr>base = b, alloca_size = sz\<rparr>;
          ctx1 = Assign ctx reg b
      in if reg \<in> fst ` set (allocas ctx1)
         then (case Alloca_dtor h1 a of None \<Rightarrow> None | Some h2 \<Rightarrow> Some (ctx1, h2))
         else Some (ctx1\<lparr>allocas := allocas ctx1 @ [(reg, a)]\<rparr>, h1))"

text \<open>Destruction of a frame destroys its \<open>allocas\<close>, each entry through
  \<^verbatim>\<open>~Alloca\<close>.\<close>

fun release :: "memory \<Rightarrow> (i64 \<times> Alloca) list \<Rightarrow> memory option" where
  "release h [] = Some h"
| "release h (ra # ras) =
     (case Alloca_dtor h (snd ra) of None \<Rightarrow> None | Some h' \<Rightarrow> release h' ras)"

subsection \<open>Execution engine\<close>

text \<open>The engine's \<open>stack\<close> (the active frame is the last element), the C heap and the
  lines written to \<^verbatim>\<open>std::cerr\<close> by DEBUG. The members \<^verbatim>\<open>stopping_\<close> and \<^verbatim>\<open>pc_\<close> of the
  engine are never read or written and are left out.\<close>

record machine =
  stack :: "FunctionContext list"
  heap :: memory
  cerr :: "int list"

datatype outcome = is_Next: Next (the_Next: machine) | is_AssertFail: AssertFail string | UB

text \<open>
  The fetch \<^verbatim>\<open>pc.f->basic_blocks_[pc.ib].body_[pc.ii++]\<close>. For a block id that is not
  a key, \<^verbatim>\<open>operator[]\<close> creates an empty block under it and returns that block; the
  index into its empty body is then past the end. Since every such fetch is undefined,
  the block created is never seen by a later instruction and the program stays as it is.
\<close>

definition block_at :: "Function \<Rightarrow> i64 \<Rightarrow> BasicBlock" where
  "block_at fn b = (case basic_blocks fn b of None \<Rightarrow> \<lparr>body = []\<rparr> | Some bb \<Rightarrow> bb)"

definition fetch :: "program \<Rightarrow> FunctionContext \<Rightarrow> (Instruction \<times> FunctionContext) option" where
  "fetch P ctx =
     (case P (pc_f (pc ctx)) of
        None \<Rightarrow> None
      | Some fn \<Rightarrow>
          (let bb = block_at fn (ib (pc ctx)); k = ii (pc ctx)
           in if k < length (body bb)
              then Some (body bb ! k, ctx\<lparr>pc := (pc ctx)\<lparr>ii := k + 1\<rparr>\<rparr>)
              else None))"

definition set_top :: "machine \<Rightarrow> FunctionContext \<Rightarrow> machine" where
  "set_top s ctx = s\<lparr>stack := butlast (stack s) @ [ctx]\<rparr>"

definition case_ALLOCA :: "allocator \<Rightarrow> Instruction \<Rightarrow> FunctionContext \<Rightarrow> machine \<Rightarrow> outcome" where
  "case_ALLOCA m i ctx s =
     (case (get i 0, get i 1) of
        (Some reg, Some sz) \<Rightarrow>
          (case Allocate m ctx (heap s) reg sz of
             None \<Rightarrow> UB
           | Some (ctx', h') \<Rightarrow> Next ((set_top s ctx')\<lparr>heap := h'\<rparr>))
      | _ \<Rightarrow> UB)"

definition case_IMM :: "Instruction \<Rightarrow> FunctionContext \<Rightarrow> machine \<Rightarrow> outcome" where
  "case_IMM i ctx s =
     (case (get i 0, get i 1) of
        (Some reg, Some val) \<Rightarrow> Next (set_top s (Assign ctx reg val))
      | _ \<Rightarrow> UB)"

definition case_ADD :: "Instruction \<Rightarrow> FunctionContext \<Rightarrow> machine \<Rightarrow> outcome" where
  "case_ADD i ctx s =
     (case (get i 0, get i 1, get i 2) of
        (Some dst_reg, Some r0, Some r1) \<Rightarrow>
          (let (op0_val, ctx1) = GetVal ctx r0;
               (op1_val, ctx2) = GetVal ctx1 r1
           in Next (set_top s (Assign ctx2 dst_reg (op0_val + op1_val))))
      | _ \<Rightarrow> UB)"

definition case_CMP :: "Instruction \<Rightarrow> FunctionContext \<Rightarrow> machine \<Rightarrow> outcome" where
  "case_CMP i ctx s =
     (case (get i 0, get i 1, get i 2, get i 3) of
        (Some dst_reg, Some cond, Some r0, Some r1) \<Rightarrow>
          (let (op0_val, ctx1) = GetVal ctx r0;
               (op1_val, ctx2) = GetVal ctx1 r1;
               flag = (if op0_val = op1_val then EQ
                       else if sint op0_val < sint op1_val then LT else GT)
           in Next (set_top s (Assign ctx2 dst_reg (if flag = cond then 1 else 0))))
      | _ \<Rightarrow> UB)"

definition case_COPY :: "Instruction \<Rightarrow> FunctionContext \<Rightarrow> machine \<Rightarrow> outcome" where
  "case_COPY i ctx s =
     (case (get i 1, get i 0) of
        (Some r, Some dst_reg) \<Rightarrow>
          (let (src_val, ctx1) = GetVal ctx r
           in Next (set_top s (Assign ctx1 dst_reg src_val)))
      | _ \<Rightarrow> UB)"

definition case_LOAD :: "Instruction \<Rightarrow> FunctionContext \<Rightarrow> machine \<Rightarrow> outcome" where
  "case_LOAD i ctx s =
     (case (get i 0, get i 1) of
        (Some dst_reg, Some r) \<Rightarrow>
          (let (src, ctx1) = GetVal ctx r
           in case read_i64 (heap s) src of
                None \<Rightarrow> UB
              | Some v \<Rightarrow> Next (set_top s (Assign ctx1 dst_reg v)))
      | _ \<Rightarrow> UB)"

definition case_STORE :: "Instruction \<Rightarrow> FunctionContext \<Rightarrow> machine \<Rightarrow> outcome" where
  "case_STORE i ctx s =
     (case (get i 1, get i 0) of
        (Some r1, Some r0) \<Rightarrow>
          (let (dst, ctx1) = GetVal ctx r1;
               (src_val, ctx2) = GetVal ctx1 r0
           in case write_i64 (heap s) dst src_val of
                None \<Rightarrow> UB
              | Some h' \<Rightarrow> Next ((set_top s ctx2)\<lparr>heap := h'\<rparr>))
      | _ \<Rightarrow> UB)"

definition case_BR :: "Instruction \<Rightarrow> FunctionContext \<Rightarrow> machine \<Rightarrow> outcome" where
  "case_BR i ctx s =
     (case get i 0 of
        None \<Rightarrow> UB
      | Some r \<Rightarrow>
          (let (flag_val, ctx1) = GetVal ctx r
           in case (if flag_val \<noteq> 0 then get i 1 else get i 2) of
                None \<Rightarrow> UB
              | Some b \<Rightarrow> Next (set_top s (ctx1\<lparr>pc := (pc ctx1)\<lparr>ii := 0, ib := b\<rparr>\<rparr>))))"

text \<open>CALL: the operand is the address of a \<^verbatim>\<open>Function\<close>. The assertion rejects the
  null pointer only; \<^verbatim>\<open>f->entry()\<close> through any other address that holds no
  function is undefined.\<close>

definition case_CALL :: "program \<Rightarrow> Instruction \<Rightarrow> FunctionContext \<Rightarrow> machine \<Rightarrow> outcome" where
  "case_CALL P i ctx s =
     (case get i 0 of
        None \<Rightarrow> UB
      | Some f \<Rightarrow>
          if f = 0 then AssertFail ''Unable to resolve function''
          else (case P f of
                  None \<Rightarrow> UB
                | Some fn \<Rightarrow>
                    Next (s\<lparr>stack := butlast (stack s) @
                              [ctx, \<lparr>allocas = [], reg_values = Map.empty,
                                     pc = \<lparr>pc_f = f, ib = entry fn, ii = 0\<rparr>\<rparr>]\<rparr>)))"

definition case_RET :: "FunctionContext \<Rightarrow> machine \<Rightarrow> outcome" where
  "case_RET ctx s =
     (case release (heap s) (allocas ctx) of
        None \<Rightarrow> UB
      | Some h' \<Rightarrow> Next (s\<lparr>stack := butlast (stack s), heap := h'\<rparr>))"

definition case_DEBUG :: "Instruction \<Rightarrow> FunctionContext \<Rightarrow> machine \<Rightarrow> outcome" where
  "case_DEBUG i ctx s =
     (case get i 0 of
        None \<Rightarrow> UB
      | Some r \<Rightarrow>
          (let (v, ctx1) = GetVal ctx r
           in Next ((set_top s ctx1)\<lparr>cerr := cerr s @ [sint v]\<rparr>)))"

text \<open>The \<^verbatim>\<open>switch (i.op)\<close>, with the assertion of its \<^verbatim>\<open>default\<close> label.\<close>

definition dispatch ::
  "allocator \<Rightarrow> program \<Rightarrow> Instruction \<Rightarrow> FunctionContext \<Rightarrow> machine \<Rightarrow> outcome"
where
  "dispatch m P i ctx s =
     (if op i = ALLOCA then case_ALLOCA m i ctx s
      else if op i = IMM then case_IMM i ctx s
      else if op i = ADD then case_ADD i ctx s
      else if op i = CMP then case_CMP i ctx s
      else if op i = COPY then case_COPY i ctx s
      else if op i = LOAD then case_LOAD i ctx s
      else if op i = STORE then case_STORE i ctx s
      else if op i = BR then case_BR i ctx s
      else if op i = CALL then case_CALL P i ctx s
      else if op i = RET then case_RET ctx s
      else if op i = DEBUG then case_DEBUG i ctx s
      else AssertFail ''Unsupported opcode'')"

text \<open>\<^verbatim>\<open>ExecuteInstruction\<close>: \<^verbatim>\<open>stack_.back()\<close> of an empty stack is undefined;
  otherwise fetch from the active frame and dispatch.\<close>

definition ExecuteInstruction :: "allocator \<Rightarrow> program \<Rightarrow> machine \<Rightarrow> outcome" where
  "ExecuteInstruction m P s =
     (if stack s = [] then UB
      else case fetch P (last (stack s)) of
        None \<Rightarrow> UB
      | Some (i, ctx) \<Rightarrow> dispatch m P i ctx s)"

text \<open>\<^verbatim>\<open>Execute\<close>: the loop \<^verbatim>\<open>while (!stack_.empty()) ExecuteInstruction();\<close>. It need
  not end, so the model counts instructions down from a bound.\<close>

datatype run = Finished machine | Aborted string "int list" | Undefined | OutOfFuel machine

fun Execute :: "nat \<Rightarrow> allocator \<Rightarrow> program \<Rightarrow> machine \<Rightarrow> run" where
  "Execute 0 m P s = (if stack s = [] then Finished s else OutOfFuel s)"
| "Execute (Suc k) m P s =
     (if stack s = [] then Finished s
      else case ExecuteInstruction m P s of
             Next s' \<Rightarrow> Execute k m P s'
           | AssertFail msg \<Rightarrow> Aborted msg (cerr s)
           | UB \<Rightarrow> Undefined)"

text \<open>\<^verbatim>\<open>ExecuteEntry\<close>: push a frame at the entry block of the function at address \<open>f\<close>
  and run.\<close>

definition ExecuteEntry :: "nat \<Rightarrow> allocator \<Rightarrow> program \<Rightarrow> machine \<Rightarrow> i64 \<Rightarrow> run" where
  "ExecuteEntry n m P s f =
     (case P f of
        None \<Rightarrow> Undefined
      | Some fn \<Rightarrow>
          Execute n m P
            (s\<lparr>stack := stack s @
                 [\<lparr>allocas = [], reg_values = Map.empty,
                   pc = \<lparr>pc_f = f, ib = entry fn, ii = 0\<rparr>\<rparr>]\<rparr>))"

subsection \<open>Notions used in the statements\<close>

text \<open>The three-way ordering of two register values, read as signed integers, with the
  values of \<^verbatim>\<open>enum COND\<close>.\<close>

definition three_way :: "i64 \<Rightarrow> i64 \<Rightarrow> i64" where
  "three_way x y = (if sint x < sint y then LT else if sint x = sint y then EQ else GT)"

text \<open>The non-null bases recorded in a frame's \<open>allocas\<close>: the blocks the frame owns.\<close>

fun nonnull_bases :: "(i64 \<times> Alloca) list \<Rightarrow> i64 list" where
  "nonnull_bases [] = []"
| "nonnull_bases (ra # ras) =
     (if base (snd ra) = 0 then nonnull_bases ras else base (snd ra) # nonnull_bases ras)"

definition owned_bases :: "FunctionContext \<Rightarrow> i64 list" where
  "owned_bases ctx = nonnull_bases (allocas ctx)"

text \<open>An allocator is sane when the address it returns is null or is not the base of a
  live block; a machine's heap is consistent when the blocks owned by its frames are
  pairwise different and live.\<close>

definition sane :: "allocator \<Rightarrow> bool" where
  "sane m = (\<forall>h sz. m h sz = 0 \<or> m h sz \<notin> fst ` set (live h))"

definition heap_ok :: "machine \<Rightarrow> bool" where
  "heap_ok s =
     (distinct (concat (map owned_bases (stack s))) \<and>
      set (concat (map owned_bases (stack s))) \<subseteq> fst ` set (live (heap s)))"

text \<open>The operands an instruction passes to \<^verbatim>\<open>GetVal\<close>, by position, in the order of the
  reads.\<close>

definition read_operands :: "Instruction \<Rightarrow> nat list" where
  "read_operands i =
     (if op i = ADD then [1, 2]
      else if op i = CMP then [2, 3]
      else if op i = COPY then [1]
      else if op i = LOAD then [1]
      else if op i = STORE then [1, 0]
      else if op i = BR then [0]
      else if op i = DEBUG then [0]
      else [])"

text \<open>The state after exactly \<open>k\<close> instructions of the loop, when the run gets that
  far.\<close>

fun after :: "nat \<Rightarrow> allocator \<Rightarrow> program \<Rightarrow> machine \<Rightarrow> machine option" where
  "after 0 m P s = Some s"
| "after (Suc k) m P s =
     (if stack s = [] then None
      else case ExecuteInstruction m P s of
             Next s' \<Rightarrow> after k m P s'
           | AssertFail msg \<Rightarrow> None
           | UB \<Rightarrow> None)"

subsection \<open>Example programs and states\<close>

text \<open>An allocator that is exhausted, and one that hands out page-aligned addresses.\<close>

definition no_malloc :: allocator where
  "no_malloc h sz = 0"

definition demo_malloc :: allocator where
  "demo_malloc h sz = 4096 * (1 + of_nat (length (live h)))"

text \<open>An allocator that proposes an address and gives up when that address is taken.\<close>

definition scan_malloc :: allocator where
  "scan_malloc h sz =
     (let b = 16 * (1 + of_nat (length (live h)))
      in if b \<in> fst ` set (live h) then 0 else b)"

text \<open>A program of one function, at address 4096, whose entry block 0 holds one
  instruction.\<close>

definition single :: "Instruction \<Rightarrow> program" where
  "single i = [4096 \<mapsto> \<lparr>name = ''F'', entry = 0, basic_blocks = [0 \<mapsto> \<lparr>body = [i]\<rparr>]\<rparr>]"

text \<open>The same with a longer entry block, and the machine before the run and after it,
  with the lines \<open>out\<close> printed.\<close>

definition block0 :: "Instruction list \<Rightarrow> program" where
  "block0 instrs =
     [4096 \<mapsto> \<lparr>name = ''F'', entry = 0, basic_blocks = [0 \<mapsto> \<lparr>body = instrs\<rparr>]\<rparr>]"

definition quiet :: "int list \<Rightarrow> machine" where
  "quiet out = \<lparr>stack = [], heap = \<lparr>live = [], bytes = Map.empty\<rparr>, cerr = out\<rparr>"

text \<open>The machine about to execute the first instruction of block 0 of that function,
  with one frame that owns \<open>as\<close> and has the registers \<open>rs\<close>, and the live blocks
  \<open>blocks\<close>; the same with nothing owned; and the active frame once the instruction has
  been fetched.\<close>

definition owning ::
  "(i64 \<times> Alloca) list \<Rightarrow> (i64 \<times> i64) list \<Rightarrow> (i64 \<rightharpoonup> i64) \<Rightarrow> machine"
where
  "owning as blocks rs =
     \<lparr>stack = [\<lparr>allocas = as, reg_values = rs, pc = \<lparr>pc_f = 4096, ib = 0, ii = 0\<rparr>\<rparr>],
      heap = \<lparr>live = blocks, bytes = Map.empty\<rparr>, cerr = []\<rparr>"

definition booted :: "(i64 \<rightharpoonup> i64) \<Rightarrow> machine" where
  "booted rs = owning [] [] rs"

definition fetched :: "(i64 \<times> Alloca) list \<Rightarrow> (i64 \<rightharpoonup> i64) \<Rightarrow> FunctionContext" where
  "fetched as rs = \<lparr>allocas = as, reg_values = rs, pc = \<lparr>pc_f = 4096, ib = 0, ii = 1\<rparr>\<rparr>"

text \<open>A caller whose entry block calls the function at address 8192, which returns at
  once; the caller owns one block and has one register bound.\<close>

definition caller_callee :: program where
  "caller_callee =
     [4096 \<mapsto> \<lparr>name = ''F'', entry = 0,
                 basic_blocks = [0 \<mapsto> \<lparr>body = [\<lparr>op = CALL, operand = [8192]\<rparr>,
                                             \<lparr>op = RET, operand = []\<rparr>]\<rparr>]\<rparr>,
      8192 \<mapsto> \<lparr>name = ''Callee'', entry = 0,
                 basic_blocks = [0 \<mapsto> \<lparr>body = [\<lparr>op = RET, operand = []\<rparr>]\<rparr>]\<rparr>]"

definition caller_state :: machine where
  "caller_state = owning [(5, \<lparr>base = 12288, alloca_size = 16\<rparr>)] [(12288, 16)] [1 \<mapsto> 1024]"



text \<open>ADD over registers that were never bound, then DEBUG of the sum and RET; and a
  frame with no register bound.\<close>

definition add_unbound :: program where
  "add_unbound =
     block0 [\<lparr>op = ADD, operand = [3, 1, 2]\<rparr>, \<lparr>op = DEBUG, operand = [3]\<rparr>,
             \<lparr>op = RET, operand = []\<rparr>]"

definition fresh_frame :: machine where
  "fresh_frame = booted Map.empty"

text \<open>A function that allocates under register 5 and returns, and the machine after
  the allocation with \<open>scan_malloc\<close>.\<close>

definition alloca_then_ret :: program where
  "alloca_then_ret = block0 [\<lparr>op = ALLOCA, operand = [5, 16]\<rparr>, \<lparr>op = RET, operand = []\<rparr>]"

definition owner_state :: machine where
  "owner_state =
     \<lparr>stack = [\<lparr>allocas = [(5, \<lparr>base = 16, alloca_size = 16\<rparr>)], reg_values = [5 \<mapsto> 16],
                 pc = \<lparr>pc_f = 4096, ib = 0, ii = 1\<rparr>\<rparr>],
      heap = \<lparr>live = [(16, 16)], bytes = Map.empty\<rparr>, cerr = []\<rparr>"




section \<open>Properties\<close>

subsection \<open>Auxiliary facts\<close>

lemma fetch_single:
  "fetch (single i) \<lparr>allocas = as, reg_values = rs, pc = \<lparr>pc_f = 4096, ib = 0, ii = 0\<rparr>\<rparr> =
   Some (i, fetched as rs)"
  by (simp add: fetch_def single_def fetched_def block_at_def)

lemma stack_set_top [simp]: "stack (set_top s ctx) = butlast (stack s) @ [ctx]"
  by (simp add: set_top_def)

lemma reg_values_Assign [simp]: "reg_values (Assign ctx r v) = (reg_values ctx)(r \<mapsto> v)"
  by (simp add: Assign_def)

lemma ExecuteInstruction_fetch:
  "stack s \<noteq> [] \<Longrightarrow> fetch P (last (stack s)) = Some (i, ctx) \<Longrightarrow>
   ExecuteInstruction m P s = dispatch m P i ctx s"
  by (simp add: ExecuteInstruction_def)

lemma snd_GetVal:
  "snd (GetVal ctx r) = ctx\<lparr>reg_values := (reg_values ctx)(r \<mapsto> fst (GetVal ctx r))\<rparr>"
  by (cases "reg_values ctx r") (simp_all add: GetVal_def map_upd_triv)

lemma fst_GetVal_after:
  "fst (GetVal (ctx\<lparr>reg_values := (reg_values ctx)(a \<mapsto> fst (GetVal ctx a))\<rparr>) b) =
   fst (GetVal ctx b)"
  by (cases "reg_values ctx a"; cases "reg_values ctx b") (auto simp: GetVal_def)

lemmas GetVal_simps = case_prod_beta Let_def snd_GetVal fst_GetVal_after Assign_def

lemma sint_add_wrap: "sint ((x::64 word) + y) = (sint x + sint y + 2 ^ 63) mod 2 ^ 64 - 2 ^ 63"
  by (simp add: sint_word_ariths signed_take_bit_eq_take_bit_shift take_bit_eq_mod)

lemma fetch_frame:
  "fetch P c = Some (i, ctx) \<Longrightarrow> ctx = c\<lparr>pc := (pc c)\<lparr>ii := ii (pc c) + 1\<rparr>\<rparr>"
  by (auto simp: fetch_def Let_def split: option.splits if_splits)

lemma case_DEBUG_Next:
  assumes "get i 0 = Some r"
  shows "case_DEBUG i ctx s =
     Next ((set_top s (ctx\<lparr>reg_values := (reg_values ctx)(r \<mapsto> fst (GetVal ctx r))\<rparr>))
             \<lparr>cerr := cerr s @ [sint (fst (GetVal ctx r))]\<rparr>)"
  using assms by (simp add: case_DEBUG_def GetVal_simps)

lemma case_ADD_Next:
  assumes "get i 0 = Some dst" and "get i 1 = Some a" and "get i 2 = Some b"
  shows "case_ADD i ctx s =
     Next (set_top s (ctx\<lparr>reg_values := (reg_values ctx)
        (a \<mapsto> fst (GetVal ctx a), b \<mapsto> fst (GetVal ctx b), dst \<mapsto> fst (GetVal ctx a) + fst (GetVal ctx b))\<rparr>))"
  using assms by (simp add: case_ADD_def GetVal_simps)

lemma case_CMP_Next:
  assumes "get i 0 = Some dst" and "get i 1 = Some cond" and "get i 2 = Some a" and "get i 3 = Some b"
  shows "case_CMP i ctx s =
     Next (set_top s (ctx\<lparr>reg_values := (reg_values ctx)
        (a \<mapsto> fst (GetVal ctx a), b \<mapsto> fst (GetVal ctx b),
         dst \<mapsto> (if (if fst (GetVal ctx a) = fst (GetVal ctx b) then EQ
                      else if sint (fst (GetVal ctx a)) < sint (fst (GetVal ctx b)) then LT else GT) = cond
                  then 1 else 0))\<rparr>))"
  using assms by (simp add: case_CMP_def GetVal_simps)

lemma case_BR_Next:
  assumes "get i 0 = Some c" and "get i 1 = Some t" and "get i 2 = Some e"
  shows "case_BR i ctx s =
     Next (set_top s (ctx\<lparr>reg_values := (reg_values ctx)(c \<mapsto> fst (GetVal ctx c)),
              pc := (pc ctx)\<lparr>ii := 0, ib := (if fst (GetVal ctx c) \<noteq> 0 then t else e)\<rparr>\<rparr>))"
  using assms by (simp add: case_BR_def GetVal_simps)

lemma set_top_set_top [simp]: "set_top (set_top s a) b = set_top s b"
  by (simp add: set_top_def)

lemma heap_set_top [simp]: "heap (set_top s a) = heap s"
  by (simp add: set_top_def)

lemma cerr_set_top [simp]: "cerr (set_top s a) = cerr s"
  by (simp add: set_top_def)

lemma Execute_numeral:
  "Execute (numeral n) m P s =
     (if stack s = [] then Finished s
      else case ExecuteInstruction m P s of
             Next s' \<Rightarrow> Execute (pred_numeral n) m P s'
           | AssertFail msg \<Rightarrow> Aborted msg (cerr s)
           | UB \<Rightarrow> Undefined)"
  by (simp add: numeral_eq_Suc)

lemma after_numeral:
  "after (numeral n) m P s =
     (if stack s = [] then None
      else case ExecuteInstruction m P s of
             Next s' \<Rightarrow> after (pred_numeral n) m P s'
           | AssertFail msg \<Rightarrow> None
           | UB \<Rightarrow> None)"
  by (simp add: numeral_eq_Suc)


lemmas run_defs = Execute_numeral after_numeral
  ExecuteEntry_def ExecuteInstruction_def fetch_def block_at_def block0_def quiet_def
  dispatch_def get_def GetVal_def Assign_def set_top_def

lemma sane_scan_malloc: "sane scan_malloc"
  by (simp add: sane_def scan_malloc_def Let_def)

lemma heap_ok_booted: "heap_ok (booted rs)"
  by (simp add: heap_ok_def booted_def owning_def owned_bases_def)

subsection \<open>Arithmetic and comparison\<close>

text \<open>
  Claim C4. ADD(dst, a, b) binds \<open>dst\<close> to the sum of the values read from \<open>a\<close> and \<open>b\<close>.
  The instruction always completes (no trap), whatever the two values are; read as a
  signed number the result is the sum of the signed operands wrapped into the 64-bit
  two's complement range; and the instruction with the two source operands exchanged
  leads to the same state.
\<close>

theorem ADD_wraps_and_commutes:
  assumes "stack s \<noteq> []"
    and "fetch P (last (stack s)) = Some (i, ctx)" and "op i = ADD"
    and "get i 0 = Some dst" and "get i 1 = Some a" and "get i 2 = Some b"
    and "fetch P' (last (stack s)) = Some (j, ctx)" and "op j = ADD"
    and "get j 0 = Some dst" and "get j 1 = Some b" and "get j 2 = Some a"
  shows "\<exists>s'. ExecuteInstruction m P s = Next s' \<and>
           reg_values (last (stack s')) dst = Some (fst (GetVal ctx a) + fst (GetVal ctx b)) \<and>
           sint (fst (GetVal ctx a) + fst (GetVal ctx b)) =
             (sint (fst (GetVal ctx a)) + sint (fst (GetVal ctx b)) + 2 ^ 63) mod 2 ^ 64 - 2 ^ 63 \<and>
           ExecuteInstruction m P' s = Next s'"
proof -
  have i: "ExecuteInstruction m P s = case_ADD i ctx s"
    using assms(1-3) by (simp add: ExecuteInstruction_fetch dispatch_def)
  have j: "ExecuteInstruction m P' s = case_ADD j ctx s"
    using assms(1,7,8) by (simp add: ExecuteInstruction_fetch dispatch_def)
  have comm: "(reg_values ctx)(b \<mapsto> fst (GetVal ctx b), a \<mapsto> fst (GetVal ctx a)) =
      (reg_values ctx)(a \<mapsto> fst (GetVal ctx a), b \<mapsto> fst (GetVal ctx b))"
    by (cases "a = b") (simp_all add: fun_upd_twist)
  show ?thesis
    unfolding i j case_ADD_Next [OF assms(4-6)] case_ADD_Next [OF assms(9-11)]
    by (simp add: comm add.commute sint_add_wrap)
qed

theorem ADD_wraps_and_commutes_witness:
  "\<exists>s'. ExecuteInstruction no_malloc (single \<lparr>op = ADD, operand = [3, 1, 2]\<rparr>)
           (booted [1 \<mapsto> 0x7FFFFFFFFFFFFFFF, 2 \<mapsto> 1]) = Next s' \<and>
        reg_values (last (stack s')) 3 = Some (0x8000000000000000) \<and>
        sint (0x8000000000000000 :: i64) = - (2 ^ 63) \<and>
        ExecuteInstruction no_malloc (single \<lparr>op = ADD, operand = [3, 2, 1]\<rparr>)
           (booted [1 \<mapsto> 0x7FFFFFFFFFFFFFFF, 2 \<mapsto> 1]) = Next s'"
  using ADD_wraps_and_commutes [where s = "booted [1 \<mapsto> 0x7FFFFFFFFFFFFFFF, 2 \<mapsto> 1]"
        and P = "single \<lparr>op = ADD, operand = [3, 1, 2]\<rparr>"
        and i = "\<lparr>op = ADD, operand = [3, 1, 2]\<rparr>"
        and ctx = "fetched [] [1 \<mapsto> 0x7FFFFFFFFFFFFFFF, 2 \<mapsto> 1]"
        and dst = 3 and a = 1 and b = 2
        and P' = "single \<lparr>op = ADD, operand = [3, 2, 1]\<rparr>"
        and j = "\<lparr>op = ADD, operand = [3, 2, 1]\<rparr>" and m = no_malloc]
  by (simp add: booted_def owning_def fetch_single get_def GetVal_def fetched_def)

text \<open>
  Claim C3. CMP(dst, cond, a, b) binds \<open>dst\<close> to 1 when the three-way ordering of the
  value of \<open>a\<close> against the value of \<open>b\<close> (LT = -1, EQ = 0, GT = 1) equals \<open>cond\<close>, and to
  0 otherwise. In particular CMP(dst, EQ, a, a) gives 1, and CMP(dst, LT, a, a) and
  CMP(dst, GT, a, a) give 0.
\<close>

theorem CMP_three_way:
  assumes "stack s \<noteq> []"
    and "fetch P (last (stack s)) = Some (i, ctx)" and "op i = CMP"
    and "get i 0 = Some dst" and "get i 1 = Some cond" and "get i 2 = Some a" and "get i 3 = Some b"
  shows "\<exists>s'. ExecuteInstruction m P s = Next s' \<and>
           reg_values (last (stack s')) dst =
             Some (if three_way (fst (GetVal ctx a)) (fst (GetVal ctx b)) = cond then 1 else 0) \<and>
           (a = b \<and> cond = EQ \<longrightarrow> reg_values (last (stack s')) dst = Some 1) \<and>
           (a = b \<and> (cond = LT \<or> cond = GT) \<longrightarrow> reg_values (last (stack s')) dst = Some 0)"
proof -
  have "ExecuteInstruction m P s = case_CMP i ctx s"
    using assms(1-3) by (simp add: ExecuteInstruction_fetch dispatch_def)
  then show ?thesis
    unfolding case_CMP_Next [OF assms(4-7)]
    by (auto simp: three_way_def signed_word_eqI)
qed

theorem CMP_three_way_witness:
  "(\<exists>s'. ExecuteInstruction no_malloc (single \<lparr>op = CMP, operand = [3, LT, 1, 2]\<rparr>)
            (booted [1 \<mapsto> - 5, 2 \<mapsto> 7]) = Next s' \<and>
         reg_values (last (stack s')) 3 = Some 1) \<and>
   (\<exists>s'. ExecuteInstruction no_malloc (single \<lparr>op = CMP, operand = [3, EQ, 1, 1]\<rparr>)
            (booted [1 \<mapsto> - 5]) = Next s' \<and>
         reg_values (last (stack s')) 3 = Some 1) \<and>
   (\<exists>s'. ExecuteInstruction no_malloc (single \<lparr>op = CMP, operand = [3, GT, 1, 1]\<rparr>)
            (booted [1 \<mapsto> - 5]) = Next s' \<and>
         reg_values (last (stack s')) 3 = Some 0)"
  using CMP_three_way [where s = "booted [1 \<mapsto> - 5, 2 \<mapsto> 7]"
        and P = "single \<lparr>op = CMP, operand = [3, LT, 1, 2]\<rparr>"
        and i = "\<lparr>op = CMP, operand = [3, LT, 1, 2]\<rparr>"
        and ctx = "fetched [] [1 \<mapsto> - 5, 2 \<mapsto> 7]"
        and dst = 3 and cond = LT and a = 1 and b = 2 and m = no_malloc]
    CMP_three_way [where s = "booted [1 \<mapsto> - 5]"
        and P = "single \<lparr>op = CMP, operand = [3, EQ, 1, 1]\<rparr>"
        and i = "\<lparr>op = CMP, operand = [3, EQ, 1, 1]\<rparr>"
        and ctx = "fetched [] [1 \<mapsto> - 5]"
        and dst = 3 and cond = EQ and a = 1 and b = 1 and m = no_malloc]
    CMP_three_way [where s = "booted [1 \<mapsto> - 5]"
        and P = "single \<lparr>op = CMP, operand = [3, GT, 1, 1]\<rparr>"
        and i = "\<lparr>op = CMP, operand = [3, GT, 1, 1]\<rparr>"
        and ctx = "fetched [] [1 \<mapsto> - 5]"
        and dst = 3 and cond = GT and a = 1 and b = 1 and m = no_malloc]
  by (simp add: booted_def owning_def fetch_single get_def GetVal_def fetched_def three_way_def)

subsection \<open>Control flow\<close>

text \<open>
  Claim C5. BR(condReg, trueBlock, falseBlock) sets the instruction index of the active
  frame to 0, and its block id to \<open>trueBlock\<close> when the value of \<open>condReg\<close> is not zero and
  to \<open>falseBlock\<close> when it is zero.
\<close>

theorem BR_transfers:
  assumes "stack s \<noteq> []"
    and "fetch P (last (stack s)) = Some (i, ctx)" and "op i = BR"
    and "get i 0 = Some c" and "get i 1 = Some t" and "get i 2 = Some e"
  shows "\<exists>s'. ExecuteInstruction m P s = Next s' \<and>
           length (stack s') = length (stack s) \<and>
           ii (pc (last (stack s'))) = 0 \<and>
           ib (pc (last (stack s'))) = (if fst (GetVal ctx c) \<noteq> 0 then t else e)"
proof -
  have "ExecuteInstruction m P s = case_BR i ctx s"
    using assms(1-3) by (simp add: ExecuteInstruction_fetch dispatch_def)
  then show ?thesis
    unfolding case_BR_Next [OF assms(4-6)] using assms(1) by simp
qed

theorem BR_transfers_witness:
  "\<exists>s'. ExecuteInstruction no_malloc (single \<lparr>op = BR, operand = [1, 7, 9]\<rparr>)
           (booted [1 \<mapsto> 5]) = Next s' \<and>
        length (stack s') = 1 \<and>
        ii (pc (last (stack s'))) = 0 \<and> ib (pc (last (stack s'))) = 7"
  using BR_transfers [where s = "booted [1 \<mapsto> 5]"
        and P = "single \<lparr>op = BR, operand = [1, 7, 9]\<rparr>"
        and i = "\<lparr>op = BR, operand = [1, 7, 9]\<rparr>"
        and ctx = "fetched [] [1 \<mapsto> 5]"
        and c = 1 and t = 7 and e = 9 and m = no_malloc]
  by (simp add: booted_def owning_def fetch_single get_def GetVal_def fetched_def)

subsection \<open>Reading registers\<close>

text \<open>
  Claim C9. Reading a register that is not bound in the frame returns 0 and leaves the
  register bound to 0 in the frame's register map. So DEBUG(reg) on an unbound register
  prints 0 and changes the frame: the register map after the instruction has the new
  binding and differs from the map before.
\<close>

theorem unbound_read_binds_zero:
  assumes "stack s \<noteq> []"
    and "fetch P (last (stack s)) = Some (i, ctx)" and "op i = DEBUG"
    and "get i 0 = Some r" and "reg_values (last (stack s)) r = None"
  shows "(\<forall>c. reg_values c r = None \<longrightarrow>
            GetVal c r = (0, c\<lparr>reg_values := (reg_values c)(r \<mapsto> 0)\<rparr>)) \<and>
         (\<exists>s'. ExecuteInstruction m P s = Next s' \<and>
            cerr s' = cerr s @ [0] \<and>
            reg_values (last (stack s')) = (reg_values (last (stack s)))(r \<mapsto> 0) \<and>
            reg_values (last (stack s')) \<noteq> reg_values (last (stack s)))"
proof -
  have ctx: "reg_values ctx = reg_values (last (stack s))"
    using fetch_frame [OF assms(2)] by simp
  have v: "fst (GetVal ctx r) = 0"
    using assms(5) ctx by (simp add: GetVal_def)
  have run: "ExecuteInstruction m P s = case_DEBUG i ctx s"
    using assms(1-3) by (simp add: ExecuteInstruction_fetch dispatch_def)
  have changed: "(reg_values (last (stack s)))(r \<mapsto> 0) \<noteq> reg_values (last (stack s))"
    using assms(5) by (metis fun_upd_same option.distinct(1))
  show ?thesis
    unfolding run case_DEBUG_Next [OF assms(4)] v
    using changed by (simp add: GetVal_def ctx)
qed

theorem unbound_read_binds_zero_witness:
  "\<exists>s'. ExecuteInstruction no_malloc (single \<lparr>op = DEBUG, operand = [3]\<rparr>)
           (booted Map.empty) = Next s' \<and>
        cerr s' = [0] \<and> reg_values (last (stack s')) = [3 \<mapsto> 0]"
  using unbound_read_binds_zero [where s = "booted Map.empty"
        and P = "single \<lparr>op = DEBUG, operand = [3]\<rparr>"
        and i = "\<lparr>op = DEBUG, operand = [3]\<rparr>"
        and ctx = "fetched [] Map.empty" and r = 3 and m = no_malloc]
  by (simp add: booted_def owning_def fetch_single get_def GetVal_def fetched_def) blast

text \<open>
  Claim C1, as stated: reading a register that was never bound is surfaced as a fault of
  the run. It is not. A function that adds two registers it never bound, prints the sum
  and returns runs to its end and prints 0; the ADD completes and binds its destination
  to 0.
\<close>

theorem unbound_read_no_fault_counterexample:
  "ExecuteEntry 3 no_malloc add_unbound (quiet []) 4096 = Finished (quiet [0]) \<and>
   is_Next (ExecuteInstruction no_malloc add_unbound fresh_frame) \<and>
   reg_values (last (stack (the_Next (ExecuteInstruction no_malloc add_unbound fresh_frame)))) 3 =
     Some 0"
  by (simp add: run_defs add_unbound_def fresh_frame_def booted_def owning_def
      case_ADD_def case_DEBUG_def case_RET_def)

subsubsection \<open>A read of an unbound register behaves as a read of 0\<close>

lemma GetVal_prebound_same:
  "reg_values ctx r = None \<Longrightarrow>
   GetVal (ctx\<lparr>reg_values := (reg_values ctx)(r \<mapsto> 0)\<rparr>) r = GetVal ctx r"
  by (simp add: GetVal_def)

lemma GetVal_prebound_other:
  "reg_values ctx r = None \<Longrightarrow> x \<noteq> r \<Longrightarrow>
   GetVal (ctx\<lparr>reg_values := (reg_values ctx)(r \<mapsto> 0)\<rparr>) x =
     (fst (GetVal ctx x),
      (snd (GetVal ctx x))\<lparr>reg_values := (reg_values (snd (GetVal ctx x)))(r \<mapsto> 0)\<rparr>)"
  by (cases "reg_values ctx x") (auto simp: GetVal_def fun_upd_twist)

lemma GetVal_other_unbound:
  "reg_values ctx r = None \<Longrightarrow> x \<noteq> r \<Longrightarrow> reg_values (snd (GetVal ctx x)) r = None"
  by (cases "reg_values ctx x") (auto simp: GetVal_def)

lemmas prebound_simps =
  case_prod_beta Let_def GetVal_prebound_same GetVal_prebound_other GetVal_other_unbound

lemma case_ADD_prebound:
  assumes "reg_values ctx r = None" and "get i 1 = Some r \<or> get i 2 = Some r"
  shows "case_ADD i (ctx\<lparr>reg_values := (reg_values ctx)(r \<mapsto> 0)\<rparr>) (set_top s c) = case_ADD i ctx s"
  using assms
  by (cases "get i 1 = Some r") (auto simp: case_ADD_def prebound_simps split: option.splits)

lemma case_CMP_prebound:
  assumes "reg_values ctx r = None" and "get i 2 = Some r \<or> get i 3 = Some r"
  shows "case_CMP i (ctx\<lparr>reg_values := (reg_values ctx)(r \<mapsto> 0)\<rparr>) (set_top s c) = case_CMP i ctx s"
  using assms
  by (cases "get i 2 = Some r") (auto simp: case_CMP_def prebound_simps split: option.splits)

lemma case_COPY_prebound:
  assumes "reg_values ctx r = None" and "get i 1 = Some r"
  shows "case_COPY i (ctx\<lparr>reg_values := (reg_values ctx)(r \<mapsto> 0)\<rparr>) (set_top s c) = case_COPY i ctx s"
  using assms by (auto simp: case_COPY_def prebound_simps split: option.splits)

lemma case_LOAD_prebound:
  assumes "reg_values ctx r = None" and "get i 1 = Some r"
  shows "case_LOAD i (ctx\<lparr>reg_values := (reg_values ctx)(r \<mapsto> 0)\<rparr>) (set_top s c) = case_LOAD i ctx s"
  using assms by (auto simp: case_LOAD_def prebound_simps split: option.splits)

lemma case_STORE_prebound:
  assumes "reg_values ctx r = None" and "get i 1 = Some r \<or> get i 0 = Some r"
  shows "case_STORE i (ctx\<lparr>reg_values := (reg_values ctx)(r \<mapsto> 0)\<rparr>) (set_top s c) = case_STORE i ctx s"
  using assms
  by (cases "get i 1 = Some r") (auto simp: case_STORE_def prebound_simps split: option.splits)

lemma case_BR_prebound:
  assumes "reg_values ctx r = None" and "get i 0 = Some r"
  shows "case_BR i (ctx\<lparr>reg_values := (reg_values ctx)(r \<mapsto> 0)\<rparr>) (set_top s c) = case_BR i ctx s"
  using assms by (auto simp: case_BR_def prebound_simps split: option.splits)

lemma case_DEBUG_prebound:
  assumes "reg_values ctx r = None" and "get i 0 = Some r"
  shows "case_DEBUG i (ctx\<lparr>reg_values := (reg_values ctx)(r \<mapsto> 0)\<rparr>) (set_top s c) = case_DEBUG i ctx s"
  using assms by (auto simp: case_DEBUG_def prebound_simps split: option.splits)

lemma fetch_prebound:
  "fetch P c = Some (i, ctx) \<Longrightarrow>
   fetch P (c\<lparr>reg_values := rv\<rparr>) = Some (i, ctx\<lparr>reg_values := rv\<rparr>)"
  by (auto simp: fetch_def Let_def split: option.splits if_splits)

lemma no_assert_reads:
  "\<not> is_AssertFail (case_ADD i ctx s)" "\<not> is_AssertFail (case_CMP i ctx s)"
  "\<not> is_AssertFail (case_COPY i ctx s)" "\<not> is_AssertFail (case_LOAD i ctx s)"
  "\<not> is_AssertFail (case_STORE i ctx s)" "\<not> is_AssertFail (case_BR i ctx s)"
  "\<not> is_AssertFail (case_DEBUG i ctx s)"
  by (simp_all add: case_ADD_def case_CMP_def case_COPY_def case_LOAD_def case_STORE_def
      case_BR_def case_DEBUG_def case_prod_beta Let_def split: option.splits)

text \<open>
  Claim C1, as amended. Reading a register that was never bound is not a fault: the read
  yields 0. For every operand read performed by ADD, CMP, COPY, LOAD, STORE, BR and DEBUG,
  when the register read is unbound the instruction fails no assertion and has exactly
  the outcome it has in the frame where that register is bound to 0.
\<close>

theorem unbound_read_defaults_to_zero:
  assumes "stack s \<noteq> []"
    and "fetch P (last (stack s)) = Some (i, ctx)"
    and "k \<in> set (read_operands i)" and "get i k = Some r"
    and "reg_values (last (stack s)) r = None"
  shows "fst (GetVal ctx r) = 0 \<and>
         \<not> is_AssertFail (ExecuteInstruction m P s) \<and>
         ExecuteInstruction m P s =
           ExecuteInstruction m P
             (set_top s ((last (stack s))\<lparr>reg_values := (reg_values (last (stack s)))(r \<mapsto> 0)\<rparr>))"
proof -
  let ?c0 = "(last (stack s))\<lparr>reg_values := (reg_values (last (stack s)))(r \<mapsto> 0)\<rparr>"
  let ?ctx0 = "ctx\<lparr>reg_values := (reg_values ctx)(r \<mapsto> 0)\<rparr>"
  have regs: "reg_values ctx = reg_values (last (stack s))"
    using fetch_frame [OF assms(2)] by simp
  then have unbound: "reg_values ctx r = None"
    using assms(5) by simp
  have zero: "fst (GetVal ctx r) = 0"
    using unbound by (simp add: GetVal_def)
  have run: "ExecuteInstruction m P s = dispatch m P i ctx s"
    using assms(1,2) by (simp add: ExecuteInstruction_fetch)
  have "fetch P ?c0 = Some (i, ?ctx0)"
    using fetch_prebound [OF assms(2)] regs by simp
  then have run0: "ExecuteInstruction m P (set_top s ?c0) = dispatch m P i ?ctx0 (set_top s ?c0)"
    by (simp add: ExecuteInstruction_def)
  consider (ADD) "op i = ADD" "get i 1 = Some r \<or> get i 2 = Some r"
    | (CMP) "op i = CMP" "get i 2 = Some r \<or> get i 3 = Some r"
    | (COPY) "op i = COPY" "get i 1 = Some r"
    | (LOAD) "op i = LOAD" "get i 1 = Some r"
    | (STORE) "op i = STORE" "get i 1 = Some r \<or> get i 0 = Some r"
    | (BR) "op i = BR" "get i 0 = Some r"
    | (DEBUG) "op i = DEBUG" "get i 0 = Some r"
    using assms(3,4) by (auto simp: read_operands_def split: if_splits)
  then have "\<not> is_AssertFail (dispatch m P i ctx s) \<and>
      dispatch m P i ?ctx0 (set_top s ?c0) = dispatch m P i ctx s"
  proof cases
    case ADD
    then show ?thesis
      using case_ADD_prebound [OF unbound ADD(2)] by (simp add: dispatch_def no_assert_reads)
  next
    case CMP
    then show ?thesis
      using case_CMP_prebound [OF unbound CMP(2)] by (simp add: dispatch_def no_assert_reads)
  next
    case COPY
    then show ?thesis
      using case_COPY_prebound [OF unbound COPY(2)] by (simp add: dispatch_def no_assert_reads)
  next
    case LOAD
    then show ?thesis
      using case_LOAD_prebound [OF unbound LOAD(2)] by (simp add: dispatch_def no_assert_reads)
  next
    case STORE
    then show ?thesis
      using case_STORE_prebound [OF unbound STORE(2)] by (simp add: dispatch_def no_assert_reads)
  next
    case BR
    then show ?thesis
      using case_BR_prebound [OF unbound BR(2)] by (simp add: dispatch_def no_assert_reads)
  next
    case DEBUG
    then show ?thesis
      using case_DEBUG_prebound [OF unbound DEBUG(2)] by (simp add: dispatch_def no_assert_reads)
  qed
  then show ?thesis
    using zero run run0 by simp
qed

theorem unbound_read_defaults_to_zero_witness:
  "ExecuteInstruction no_malloc add_unbound fresh_frame =
     ExecuteInstruction no_malloc add_unbound (booted [2 \<mapsto> 0]) \<and>
   is_Next (ExecuteInstruction no_malloc add_unbound fresh_frame)"
  using unbound_read_defaults_to_zero [where s = fresh_frame and P = add_unbound
        and i = "\<lparr>op = ADD, operand = [3, 1, 2]\<rparr>"
        and ctx = "fetched [] Map.empty" and k = 2 and r = 2 and m = no_malloc]
  by (simp add: run_defs add_unbound_def fresh_frame_def booted_def owning_def
      case_ADD_def read_operands_def fetched_def)

subsection \<open>Allocation and frames\<close>

lemma Allocate_owned:
  assumes "reg \<in> fst ` set (allocas ctx)"
  shows "Allocate m ctx h reg sz =
     Some (ctx\<lparr>reg_values := (reg_values ctx)(reg \<mapsto> m h sz)\<rparr>,
           if m h sz = 0 then h
           else h\<lparr>live := filter (\<lambda>blk. fst blk \<noteq> m h sz) (live h),
                   bytes := (\<lambda>a. if in_block (m h sz) sz a then None else bytes h a)\<rparr>)"
  using assms
  by (simp add: Allocate_def malloc_def Let_def Assign_def Alloca_dtor_def free_def)

lemma Allocate_fresh:
  assumes "reg \<notin> fst ` set (allocas ctx)"
  shows "Allocate m ctx h reg sz =
     Some (ctx\<lparr>reg_values := (reg_values ctx)(reg \<mapsto> m h sz),
                allocas := allocas ctx @ [(reg, \<lparr>base = m h sz, alloca_size = sz\<rparr>)]\<rparr>,
           snd (malloc m h sz))"
  using assms
  by (simp add: Allocate_def malloc_def Let_def Assign_def)

text \<open>
  Claim C10. ALLOCA(reg, size) in a frame that already records an allocation under \<open>reg\<close>
  binds the register to the newly allocated address and leaves the frame's \<open>allocas\<close> as
  it was: the old allocation stays recorded under \<open>reg\<close> and the new one is not recorded.
  (The new block is freed again before the instruction ends.)
\<close>

theorem ALLOCA_on_owned_register:
  assumes "stack s \<noteq> []"
    and "fetch P (last (stack s)) = Some (i, ctx)" and "op i = ALLOCA"
    and "get i 0 = Some reg" and "get i 1 = Some sz"
    and "reg \<in> fst ` set (allocas (last (stack s)))"
  shows "\<exists>s'. ExecuteInstruction m P s = Next s' \<and>
           reg_values (last (stack s')) reg = Some (m (heap s) sz) \<and>
           allocas (last (stack s')) = allocas (last (stack s)) \<and>
           (m (heap s) sz \<noteq> 0 \<longrightarrow> m (heap s) sz \<notin> fst ` set (live (heap s')))"
proof -
  have ctx: "allocas ctx = allocas (last (stack s))"
    using fetch_frame [OF assms(2)] by simp
  have run: "ExecuteInstruction m P s = case_ALLOCA m i ctx s"
    using assms(1-3) by (simp add: ExecuteInstruction_fetch dispatch_def)
  have owned: "reg \<in> fst ` set (allocas ctx)"
    using assms(6) ctx by simp
  show ?thesis
    unfolding run case_ALLOCA_def
    using assms(4,5) ctx by (auto simp: Allocate_owned [OF owned])
qed

theorem ALLOCA_on_owned_register_witness:
  "\<exists>s'. ExecuteInstruction demo_malloc (single \<lparr>op = ALLOCA, operand = [5, 32]\<rparr>)
           (owning [(5, \<lparr>base = 12288, alloca_size = 16\<rparr>)] [(12288, 16)] [5 \<mapsto> 12288]) = Next s' \<and>
        reg_values (last (stack s')) 5 = Some 8192 \<and>
        allocas (last (stack s')) = [(5, \<lparr>base = 12288, alloca_size = 16\<rparr>)] \<and>
        8192 \<notin> fst ` set (live (heap s'))"
  using ALLOCA_on_owned_register [where
        s = "owning [(5, \<lparr>base = 12288, alloca_size = 16\<rparr>)] [(12288, 16)] [5 \<mapsto> 12288]"
        and P = "single \<lparr>op = ALLOCA, operand = [5, 32]\<rparr>"
        and i = "\<lparr>op = ALLOCA, operand = [5, 32]\<rparr>"
        and ctx = "fetched [(5, \<lparr>base = 12288, alloca_size = 16\<rparr>)] [5 \<mapsto> 12288]"
        and reg = 5 and sz = 32 and m = demo_malloc]
  by (simp add: owning_def fetch_single get_def demo_malloc_def)

lemma free_live:
  assumes "b \<noteq> 0" and "b \<in> fst ` set (live h)"
  shows "free h b = Some (h\<lparr>live := filter (\<lambda>blk. fst blk \<noteq> b) (live h)\<rparr>)"
  using assms by (simp add: free_def)

lemma release_owned:
  assumes "distinct (nonnull_bases ras)"
    and "set (nonnull_bases ras) \<subseteq> fst ` set (live h)"
  shows "release h ras =
     Some (h\<lparr>live := filter (\<lambda>blk. fst blk \<notin> set (nonnull_bases ras)) (live h)\<rparr>)"
  using assms
proof (induction ras arbitrary: h)
  case Nil
  then show ?case by simp
next
  case (Cons ra ras)
  show ?case
  proof (cases "base (snd ra) = 0")
    case True
    with Cons show ?thesis by (simp add: Alloca_dtor_def)
  next
    case False
    let ?b = "base (snd ra)"
    let ?h = "h\<lparr>live := filter (\<lambda>blk. fst blk \<noteq> ?b) (live h)\<rparr>"
    from False Cons.prems have live: "?b \<in> fst ` set (live h)" by simp
    have fr: "Alloca_dtor h (snd ra) = Some ?h"
      using False live by (simp add: Alloca_dtor_def free_live)
    have d: "distinct (nonnull_bases ras)"
      using Cons.prems(1) False by simp
    have notin: "?b \<notin> set (nonnull_bases ras)"
      using Cons.prems(1) False by simp
    have sub: "set (nonnull_bases ras) \<subseteq> fst ` set (live ?h)"
    proof
      fix x assume x: "x \<in> set (nonnull_bases ras)"
      then have "x \<in> fst ` set (live h)" using Cons.prems(2) False by auto
      then obtain blk where "blk \<in> set (live h)" and "fst blk = x" by auto
      moreover have "x \<noteq> ?b" using x notin by auto
      ultimately show "x \<in> fst ` set (live ?h)" by force
    qed
    have "release h (ra # ras) = release ?h ras"
      using fr by simp
    also have "\<dots> = Some (?h\<lparr>live := filter (\<lambda>blk. fst blk \<notin> set (nonnull_bases ras)) (live ?h)\<rparr>)"
      by (rule Cons.IH [OF d sub])
    also have "\<dots> = Some (h\<lparr>live := filter (\<lambda>blk. fst blk \<notin> set (nonnull_bases (ra # ras))) (live h)\<rparr>)"
      using False by (auto intro: filter_cong)
    finally show ?thesis .
  qed
qed

subsubsection \<open>What one instruction does to the stack\<close>

lemma Allocate_allocas:
  "Allocate m ctx h reg sz = Some (ctx', h') \<Longrightarrow> set (allocas ctx) \<subseteq> set (allocas ctx')"
  by (auto simp: Allocate_def Let_def Assign_def split: prod.splits if_splits option.splits)

lemma case_ALLOCA_shape:
  "case_ALLOCA m i ctx s = Next s' \<Longrightarrow>
   \<exists>c'. stack s' = butlast (stack s) @ [c'] \<and> set (allocas ctx) \<subseteq> set (allocas c')"
  by (auto simp: case_ALLOCA_def split: option.splits dest: Allocate_allocas)

lemma case_IMM_shape:
  "case_IMM i ctx s = Next s' \<Longrightarrow>
   \<exists>c'. stack s' = butlast (stack s) @ [c'] \<and> set (allocas ctx) \<subseteq> set (allocas c')"
  by (auto simp: case_IMM_def Assign_def split: option.splits)

lemma case_ADD_shape:
  "case_ADD i ctx s = Next s' \<Longrightarrow>
   \<exists>c'. stack s' = butlast (stack s) @ [c'] \<and> set (allocas ctx) \<subseteq> set (allocas c')"
  by (auto simp: case_ADD_def GetVal_simps split: option.splits)

lemma case_CMP_shape:
  "case_CMP i ctx s = Next s' \<Longrightarrow>
   \<exists>c'. stack s' = butlast (stack s) @ [c'] \<and> set (allocas ctx) \<subseteq> set (allocas c')"
  by (auto simp: case_CMP_def GetVal_simps split: option.splits)

lemma case_COPY_shape:
  "case_COPY i ctx s = Next s' \<Longrightarrow>
   \<exists>c'. stack s' = butlast (stack s) @ [c'] \<and> set (allocas ctx) \<subseteq> set (allocas c')"
  by (auto simp: case_COPY_def GetVal_simps split: option.splits)

lemma case_LOAD_shape:
  "case_LOAD i ctx s = Next s' \<Longrightarrow>
   \<exists>c'. stack s' = butlast (stack s) @ [c'] \<and> set (allocas ctx) \<subseteq> set (allocas c')"
  by (auto simp: case_LOAD_def GetVal_simps split: option.splits)

lemma case_STORE_shape:
  "case_STORE i ctx s = Next s' \<Longrightarrow>
   \<exists>c'. stack s' = butlast (stack s) @ [c'] \<and> set (allocas ctx) \<subseteq> set (allocas c')"
  by (auto simp: case_STORE_def GetVal_simps split: option.splits)

lemma case_BR_shape:
  "case_BR i ctx s = Next s' \<Longrightarrow>
   \<exists>c'. stack s' = butlast (stack s) @ [c'] \<and> set (allocas ctx) \<subseteq> set (allocas c')"
  by (auto simp: case_BR_def GetVal_simps split: option.splits if_splits)

lemma case_DEBUG_shape:
  "case_DEBUG i ctx s = Next s' \<Longrightarrow>
   \<exists>c'. stack s' = butlast (stack s) @ [c'] \<and> set (allocas ctx) \<subseteq> set (allocas c')"
  by (auto simp: case_DEBUG_def GetVal_simps split: option.splits)

lemma case_CALL_shape:
  "case_CALL P i ctx s = Next s' \<Longrightarrow>
   \<exists>new. stack s' = butlast (stack s) @ [ctx, new]"
  by (auto simp: case_CALL_def split: option.splits if_splits)

lemma case_RET_shape:
  "case_RET ctx s = Next s' \<Longrightarrow> stack s' = butlast (stack s)"
  by (auto simp: case_RET_def split: option.splits)

lemma dispatch_shape:
  assumes "dispatch m P i ctx s = Next s'"
  shows "(\<exists>c'. stack s' = butlast (stack s) @ [c'] \<and> set (allocas ctx) \<subseteq> set (allocas c')) \<or>
         (\<exists>new. stack s' = butlast (stack s) @ [ctx, new]) \<or>
         stack s' = butlast (stack s)"
  using assms
  unfolding dispatch_def
  by (auto split: if_splits
      dest: case_ALLOCA_shape case_IMM_shape case_ADD_shape case_CMP_shape case_COPY_shape
        case_LOAD_shape case_STORE_shape case_BR_shape case_DEBUG_shape case_CALL_shape
        case_RET_shape)

lemma ExecuteInstruction_shape:
  assumes "ExecuteInstruction m P s = Next s'"
  shows "stack s \<noteq> [] \<and>
        ((\<exists>c'. stack s' = butlast (stack s) @ [c'] \<and>
               set (allocas (last (stack s))) \<subseteq> set (allocas c')) \<or>
         (\<exists>c' new. stack s' = butlast (stack s) @ [c', new] \<and>
               allocas c' = allocas (last (stack s)) \<and>
               reg_values c' = reg_values (last (stack s))) \<or>
         stack s' = butlast (stack s))"
proof -
  from assms have ne: "stack s \<noteq> []"
    by (auto simp: ExecuteInstruction_def split: if_splits)
  from assms ne obtain i ctx where f: "fetch P (last (stack s)) = Some (i, ctx)"
    and d: "dispatch m P i ctx s = Next s'"
    by (auto simp: ExecuteInstruction_def split: option.splits)
  have ctx: "allocas ctx = allocas (last (stack s))" "reg_values ctx = reg_values (last (stack s))"
    using fetch_frame [OF f] by simp_all
  from dispatch_shape [OF d] ctx ne show ?thesis by auto
qed

lemma frames_below_untouched:
  assumes "ExecuteInstruction m P s = Next s'"
  shows "take (length (stack s) - 1) (stack s') = butlast (stack s)"
  using ExecuteInstruction_shape [OF assms]
  by (auto simp: butlast_conv_take)

lemma set_nonnull_bases:
  "set (nonnull_bases ras) = {b. b \<noteq> 0 \<and> b \<in> (\<lambda>ra. base (snd ra)) ` set ras}"
  by (induction ras) auto

lemma Allocate_created:
  assumes "Allocate m c h reg sz = Some (c', h')"
  shows "m h sz = 0 \<or> m h sz \<in> set (owned_bases c') \<or> m h sz \<notin> fst ` set (live h')"
proof (cases "reg \<in> fst ` set (allocas c)")
  case True
  from assms show ?thesis
    unfolding Allocate_owned [OF True] by auto
next
  case False
  from assms show ?thesis
    unfolding Allocate_fresh [OF False]
    by (auto simp: owned_bases_def set_nonnull_bases)
qed

lemma owned_kept:
  assumes "ExecuteInstruction m P t = Next t'" and "length (stack t) \<le> length (stack t')"
  shows "set (owned_bases (last (stack t))) \<subseteq>
         set (owned_bases (stack t' ! (length (stack t) - 1)))"
proof -
  from ExecuteInstruction_shape [OF assms(1)] have ne: "stack t \<noteq> []" by simp
  then have len: "length (butlast (stack t)) = length (stack t) - 1" by simp
  from ExecuteInstruction_shape [OF assms(1)]
  consider (same) c' where "stack t' = butlast (stack t) @ [c']"
      "set (allocas (last (stack t))) \<subseteq> set (allocas c')"
    | (push) c' new where "stack t' = butlast (stack t) @ [c', new]"
      "allocas c' = allocas (last (stack t))"
    | (pop) "stack t' = butlast (stack t)"
    by blast
  then show ?thesis
  proof cases
    case same
    then have "stack t' ! (length (stack t) - 1) = c'"
      using len by (metis nth_append_length)
    with same(2) show ?thesis
      by (auto simp: owned_bases_def set_nonnull_bases)
  next
    case push
    then have "stack t' ! (length (stack t) - 1) = c'"
      using len by (metis nth_append_length)
    with push(2) show ?thesis
      by (simp add: owned_bases_def)
  next
    case pop
    then have "length (stack t') < length (stack t)"
      using ne by (simp add: length_greater_0_conv)
    with assms(2) show ?thesis by simp
  qed
qed

subsubsection \<open>Consistency of the heap is kept by every instruction\<close>

lemma case_IMM_heap:
  "case_IMM i ctx s = Next s' \<Longrightarrow>
   \<exists>c'. stack s' = butlast (stack s) @ [c'] \<and> allocas c' = allocas ctx \<and> live (heap s') = live (heap s)"
  by (auto simp: case_IMM_def Assign_def split: option.splits)

lemma case_ADD_heap:
  "case_ADD i ctx s = Next s' \<Longrightarrow>
   \<exists>c'. stack s' = butlast (stack s) @ [c'] \<and> allocas c' = allocas ctx \<and> live (heap s') = live (heap s)"
  by (auto simp: case_ADD_def GetVal_simps split: option.splits)

lemma case_CMP_heap:
  "case_CMP i ctx s = Next s' \<Longrightarrow>
   \<exists>c'. stack s' = butlast (stack s) @ [c'] \<and> allocas c' = allocas ctx \<and> live (heap s') = live (heap s)"
  by (auto simp: case_CMP_def GetVal_simps split: option.splits)

lemma case_COPY_heap:
  "case_COPY i ctx s = Next s' \<Longrightarrow>
   \<exists>c'. stack s' = butlast (stack s) @ [c'] \<and> allocas c' = allocas ctx \<and> live (heap s') = live (heap s)"
  by (auto simp: case_COPY_def GetVal_simps split: option.splits)

lemma case_LOAD_heap:
  "case_LOAD i ctx s = Next s' \<Longrightarrow>
   \<exists>c'. stack s' = butlast (stack s) @ [c'] \<and> allocas c' = allocas ctx \<and> live (heap s') = live (heap s)"
  by (auto simp: case_LOAD_def GetVal_simps split: option.splits)

lemma case_STORE_heap:
  "case_STORE i ctx s = Next s' \<Longrightarrow>
   \<exists>c'. stack s' = butlast (stack s) @ [c'] \<and> allocas c' = allocas ctx \<and> live (heap s') = live (heap s)"
  by (auto simp: case_STORE_def GetVal_simps write_i64_def split: option.splits if_splits)

lemma case_BR_heap:
  "case_BR i ctx s = Next s' \<Longrightarrow>
   \<exists>c'. stack s' = butlast (stack s) @ [c'] \<and> allocas c' = allocas ctx \<and> live (heap s') = live (heap s)"
  by (auto simp: case_BR_def GetVal_simps split: option.splits if_splits)

lemma case_DEBUG_heap:
  "case_DEBUG i ctx s = Next s' \<Longrightarrow>
   \<exists>c'. stack s' = butlast (stack s) @ [c'] \<and> allocas c' = allocas ctx \<and> live (heap s') = live (heap s)"
  by (auto simp: case_DEBUG_def GetVal_simps split: option.splits)

lemma case_CALL_heap:
  "case_CALL P i ctx s = Next s' \<Longrightarrow>
   \<exists>new. stack s' = butlast (stack s) @ [ctx, new] \<and> allocas new = [] \<and> heap s' = heap s"
  by (auto simp: case_CALL_def split: option.splits if_splits)

lemma stack_split: "stack s \<noteq> [] \<Longrightarrow> stack s = butlast (stack s) @ [last (stack s)]"
  by simp

lemma concat_owned_split:
  "stack s \<noteq> [] \<Longrightarrow>
   concat (map owned_bases (stack s)) =
     concat (map owned_bases (butlast (stack s))) @ owned_bases (last (stack s))"
  using stack_split [of s]
  by (metis append_Nil2 concat.simps(1) concat.simps(2) concat_append list.simps(8) list.simps(9)
      map_append)

lemma heap_ok_top:
  assumes "heap_ok s" and "stack s \<noteq> []"
  shows "distinct (owned_bases (last (stack s)))"
    and "set (owned_bases (last (stack s))) \<subseteq> fst ` set (live (heap s))"
proof -
  have "concat (map owned_bases (stack s)) =
      concat (map owned_bases (butlast (stack s))) @ owned_bases (last (stack s))"
    using stack_split [OF assms(2)] by (metis concat.simps(1) concat.simps(2) append_Nil2 concat_append list.simps(8) list.simps(9) map_append)
  with assms(1) show "distinct (owned_bases (last (stack s)))"
    and "set (owned_bases (last (stack s))) \<subseteq> fst ` set (live (heap s))"
    by (auto simp: heap_ok_def)
qed

lemma heap_ok_replace_top:
  assumes "heap_ok s" and "stack s \<noteq> []"
    and "stack s' = butlast (stack s) @ [c']" and "owned_bases c' = owned_bases (last (stack s))"
    and "live (heap s') = live (heap s)"
  shows "heap_ok s'"
proof -
  have "concat (map owned_bases (stack s')) = concat (map owned_bases (butlast (stack s) @ [last (stack s)]))"
    using assms(3,4) by simp
  then have "concat (map owned_bases (stack s')) = concat (map owned_bases (stack s))"
    using assms(2) by simp
  with assms(1,5) show ?thesis by (simp add: heap_ok_def)
qed

lemma nonnull_bases_append:
  "nonnull_bases (xs @ ys) = nonnull_bases xs @ nonnull_bases ys"
  by (induction xs) auto

lemma heap_ok_pop:
  assumes "heap_ok s" and "stack s \<noteq> []"
    and "stack s' = butlast (stack s)"
    and "live (heap s') =
      filter (\<lambda>blk. fst blk \<notin> set (owned_bases (last (stack s)))) (live (heap s))"
  shows "heap_ok s'"
proof -
  let ?below = "concat (map owned_bases (butlast (stack s)))"
  let ?top = "owned_bases (last (stack s))"
  from assms(1) concat_owned_split [OF assms(2)]
  have d: "distinct ?below" and disj: "set ?below \<inter> set ?top = {}"
    and sub: "set ?below \<subseteq> fst ` set (live (heap s))"
    by (auto simp: heap_ok_def)
  have "set ?below \<subseteq> fst ` set (live (heap s'))"
  proof
    fix x assume x: "x \<in> set ?below"
    then obtain blk where "blk \<in> set (live (heap s))" and "fst blk = x"
      using sub by auto
    moreover have "x \<notin> set ?top" using x disj by auto
    ultimately show "x \<in> fst ` set (live (heap s'))"
      unfolding assms(4) by force
  qed
  with d show ?thesis
    by (simp add: heap_ok_def assms(3))
qed

lemma heap_ok_push:
  assumes "heap_ok s" and "stack s \<noteq> []"
    and "stack s' = butlast (stack s) @ [c', new]"
    and "owned_bases c' = owned_bases (last (stack s))" and "owned_bases new = []"
    and "live (heap s') = live (heap s)"
  shows "heap_ok s'"
proof -
  have "concat (map owned_bases (stack s')) =
      concat (map owned_bases (butlast (stack s))) @ owned_bases (last (stack s))"
    using assms(3,4,5) by simp
  then have "concat (map owned_bases (stack s')) = concat (map owned_bases (stack s))"
    using concat_owned_split [OF assms(2)] by simp
  with assms(1,6) show ?thesis by (simp add: heap_ok_def)
qed

lemma heap_ok_grow:
  assumes "heap_ok s" and "stack s \<noteq> []"
    and "stack s' = butlast (stack s) @ [c']"
    and "owned_bases c' = owned_bases (last (stack s)) @ [b]"
    and "b \<notin> fst ` set (live (heap s))"
    and "live (heap s') = (b, sz) # live (heap s)"
  shows "heap_ok s'"
proof -
  have eq: "concat (map owned_bases (stack s')) = concat (map owned_bases (stack s)) @ [b]"
    using assms(3,4) concat_owned_split [OF assms(2)] by simp
  have "b \<notin> set (concat (map owned_bases (stack s)))"
    using assms(1,5) by (auto simp: heap_ok_def)
  with assms(1) show ?thesis
    unfolding heap_ok_def eq assms(6) by auto
qed

lemma case_ALLOCA_heap_ok:
  assumes "sane m" and "heap_ok s" and "stack s \<noteq> []"
    and "allocas ctx = allocas (last (stack s))"
    and "case_ALLOCA m i ctx s = Next s'"
  shows "heap_ok s'"
proof -
  from assms(5) obtain reg sz c' h' where
    al: "Allocate m ctx (heap s) reg sz = Some (c', h')"
    and s': "s' = (set_top s c')\<lparr>heap := h'\<rparr>"
    by (auto simp: case_ALLOCA_def split: option.splits)
  let ?b = "m (heap s) sz"
  from assms(1) have fresh: "?b = 0 \<or> ?b \<notin> fst ` set (live (heap s))"
    by (simp add: sane_def)
  show ?thesis
  proof (cases "reg \<in> fst ` set (allocas ctx)")
    case True
    have "?b \<noteq> 0 \<Longrightarrow> filter (\<lambda>blk. fst blk \<noteq> ?b) (live (heap s)) = live (heap s)"
      using fresh by (force simp: filter_id_conv)
    with al have "allocas c' = allocas ctx" and "live h' = live (heap s)"
      unfolding Allocate_owned [OF True] by (auto split: if_splits)
    then show ?thesis
      using heap_ok_replace_top [OF assms(2,3), of s' c'] s' assms(4)
      by (simp add: owned_bases_def)
  next
    case False
    from al have c': "allocas c' = allocas ctx @ [(reg, \<lparr>base = ?b, alloca_size = sz\<rparr>)]"
      and h': "h' = snd (malloc m (heap s) sz)"
      unfolding Allocate_fresh [OF False] by auto
    show ?thesis
    proof (cases "?b = 0")
      case True
      then have "owned_bases c' = owned_bases (last (stack s))" and "live h' = live (heap s)"
        using c' h' assms(4) by (simp_all add: owned_bases_def nonnull_bases_append malloc_def Let_def)
      then show ?thesis
        using heap_ok_replace_top [OF assms(2,3), of s' c'] s' by simp
    next
      case nz: False
      then have "owned_bases c' = owned_bases (last (stack s)) @ [?b]"
        and "live h' = (?b, sz) # live (heap s)"
        using c' h' assms(4) by (simp_all add: owned_bases_def nonnull_bases_append malloc_def Let_def)
      moreover have "?b \<notin> fst ` set (live (heap s))"
        using fresh nz by simp
      ultimately show ?thesis
        using heap_ok_grow [OF assms(2,3), of s' c' ?b sz] s' by simp
    qed
  qed
qed

lemma case_RET_heap_ok:
  assumes "heap_ok s" and "stack s \<noteq> []"
    and "allocas ctx = allocas (last (stack s))"
    and "case_RET ctx s = Next s'"
  shows "heap_ok s'"
proof -
  have rel: "release (heap s) (allocas ctx) =
      Some ((heap s)\<lparr>live := filter (\<lambda>blk. fst blk \<notin> set (nonnull_bases (allocas ctx))) (live (heap s))\<rparr>)"
    using heap_ok_top [OF assms(1,2)] unfolding owned_bases_def assms(3) [symmetric]
    by (rule release_owned)
  from assms(4) have "stack s' = butlast (stack s)"
    and "live (heap s') = filter (\<lambda>blk. fst blk \<notin> set (owned_bases (last (stack s)))) (live (heap s))"
    unfolding case_RET_def rel by (auto simp: owned_bases_def assms(3))
  then show ?thesis
    by (rule heap_ok_pop [OF assms(1,2)])
qed

lemma heap_ok_step:
  assumes "sane m" and "heap_ok s" and "ExecuteInstruction m P s = Next s'"
  shows "heap_ok s'"
proof -
  from assms(3) have ne: "stack s \<noteq> []"
    by (auto simp: ExecuteInstruction_def split: if_splits)
  from assms(3) ne obtain i ctx where f: "fetch P (last (stack s)) = Some (i, ctx)"
    and d: "dispatch m P i ctx s = Next s'"
    by (auto simp: ExecuteInstruction_def split: option.splits)
  have ctx: "allocas ctx = allocas (last (stack s))"
    using fetch_frame [OF f] by simp
  have same: "heap_ok s'"
    if "\<exists>c'. stack s' = butlast (stack s) @ [c'] \<and> allocas c' = allocas ctx \<and>
          live (heap s') = live (heap s)"
    using that heap_ok_replace_top [OF assms(2) ne, of s'] ctx
    by (auto simp: owned_bases_def)
  have push: "heap_ok s'"
    if "\<exists>new. stack s' = butlast (stack s) @ [ctx, new] \<and> allocas new = [] \<and> heap s' = heap s"
    using that heap_ok_push [OF assms(2) ne, of s' ctx] ctx
    by (auto simp: owned_bases_def)
  from d show ?thesis
    unfolding dispatch_def
    by (auto split: if_splits
        intro: same push case_ALLOCA_heap_ok [OF assms(1,2) ne ctx] case_RET_heap_ok [OF assms(2) ne ctx]
        dest: case_IMM_heap case_ADD_heap case_CMP_heap case_COPY_heap case_LOAD_heap
          case_STORE_heap case_BR_heap case_DEBUG_heap case_CALL_heap)
qed

lemma heap_ok_after:
  "sane m \<Longrightarrow> heap_ok s0 \<Longrightarrow> after k m P s0 = Some s \<Longrightarrow> heap_ok s"
proof (induction k arbitrary: s0)
  case 0
  then show ?case by simp
next
  case (Suc k)
  then show ?case
    by (auto split: if_splits outcome.splits dest: heap_ok_step)
qed


lemma RET_releases_owned:
  assumes "stack s \<noteq> []"
    and "fetch P (last (stack s)) = Some (i, ctx)" and "op i = RET"
    and "distinct (owned_bases (last (stack s)))"
    and "set (owned_bases (last (stack s))) \<subseteq> fst ` set (live (heap s))"
  shows "\<exists>s'. ExecuteInstruction m P s = Next s' \<and>
           stack s' = butlast (stack s) \<and>
           live (heap s') =
             filter (\<lambda>blk. fst blk \<notin> set (owned_bases (last (stack s)))) (live (heap s))"
proof -
  have ctx: "allocas ctx = allocas (last (stack s))"
    using fetch_frame [OF assms(2)] by simp
  have run: "ExecuteInstruction m P s = case_RET ctx s"
    using assms(1-3) by (simp add: ExecuteInstruction_fetch dispatch_def)
  have rel: "release (heap s) (allocas ctx) =
      Some ((heap s)\<lparr>live := filter (\<lambda>blk. fst blk \<notin> set (nonnull_bases (allocas ctx))) (live (heap s))\<rparr>)"
    using assms(4,5) unfolding owned_bases_def ctx [symmetric] by (rule release_owned)
  show ?thesis
    unfolding run case_RET_def rel
    by (simp add: owned_bases_def ctx)
qed

text \<open>
  Claim C7. RET pops the active frame and, in the same step, frees every allocation the
  frame owns: after the pop the frame is gone from the stack, none of its blocks is live,
  and the other live blocks are untouched. This holds in every state a run reaches from a
  machine with a consistent heap, when \<^verbatim>\<open>malloc\<close> never returns a block that is live.
  The blocks a frame owns are the ones created in it: a block created by \<^verbatim>\<open>Allocate\<close> is
  recorded in the frame unless it has already been freed at the end of \<^verbatim>\<open>Allocate\<close>, and
  an instruction that keeps the frame on the stack keeps the blocks recorded in it.
\<close>

theorem RET_releases_frame:
  assumes "sane m" and "heap_ok s0" and "after k m P s0 = Some s"
    and "stack s \<noteq> []"
    and "fetch P (last (stack s)) = Some (i, ctx)" and "op i = RET"
  shows "(\<exists>s'. ExecuteInstruction m P s = Next s' \<and>
            stack s' = butlast (stack s) \<and>
            (\<forall>b \<in> set (owned_bases (last (stack s))). b \<notin> fst ` set (live (heap s'))) \<and>
            live (heap s') =
              filter (\<lambda>blk. fst blk \<notin> set (owned_bases (last (stack s)))) (live (heap s))) \<and>
         (\<forall>c h reg sz c' h'. Allocate m c h reg sz = Some (c', h') \<longrightarrow>
            m h sz = 0 \<or> m h sz \<in> set (owned_bases c') \<or> m h sz \<notin> fst ` set (live h')) \<and>
         (\<forall>t t'. ExecuteInstruction m P t = Next t' \<and> length (stack t) \<le> length (stack t') \<longrightarrow>
            set (owned_bases (last (stack t))) \<subseteq>
            set (owned_bases (stack t' ! (length (stack t) - 1))))"
proof -
  have ok: "heap_ok s"
    using assms(1-3) by (rule heap_ok_after)
  from RET_releases_owned [OF assms(4-6) heap_ok_top [OF ok assms(4)], of m]
  obtain s' where s': "ExecuteInstruction m P s = Next s'" "stack s' = butlast (stack s)"
    "live (heap s') =
       filter (\<lambda>blk. fst blk \<notin> set (owned_bases (last (stack s)))) (live (heap s))"
    by blast
  have gone: "\<forall>b \<in> set (owned_bases (last (stack s))). b \<notin> fst ` set (live (heap s'))"
    unfolding s'(3) by auto
  have main: "\<exists>s'. ExecuteInstruction m P s = Next s' \<and>
            stack s' = butlast (stack s) \<and>
            (\<forall>b \<in> set (owned_bases (last (stack s))). b \<notin> fst ` set (live (heap s'))) \<and>
            live (heap s') =
              filter (\<lambda>blk. fst blk \<notin> set (owned_bases (last (stack s)))) (live (heap s))"
    using s' gone by blast
  have created: "\<forall>c h reg sz c' h'. Allocate m c h reg sz = Some (c', h') \<longrightarrow>
      m h sz = 0 \<or> m h sz \<in> set (owned_bases c') \<or> m h sz \<notin> fst ` set (live h')"
    by (intro allI impI) (rule Allocate_created)
  have kept: "\<forall>t t'. ExecuteInstruction m P t = Next t' \<and> length (stack t) \<le> length (stack t') \<longrightarrow>
      set (owned_bases (last (stack t))) \<subseteq> set (owned_bases (stack t' ! (length (stack t) - 1)))"
    by (intro allI impI, elim conjE) (rule owned_kept)
  show ?thesis
    by (rule conjI [OF main conjI [OF created kept]])
qed

theorem RET_releases_frame_witness:
  "after 1 scan_malloc alloca_then_ret (booted Map.empty) = Some owner_state \<and>
   owned_bases (last (stack owner_state)) = [16] \<and>
   live (heap owner_state) = [(16, 16)] \<and>
   (\<exists>s'. ExecuteInstruction scan_malloc alloca_then_ret owner_state = Next s' \<and>
      stack s' = [] \<and> 16 \<notin> fst ` set (live (heap s')) \<and> live (heap s') = [])"
proof -
  have a: "after 1 scan_malloc alloca_then_ret (booted Map.empty) = Some owner_state"
    by (simp add: ExecuteInstruction_def fetch_def block_at_def alloca_then_ret_def block0_def
        booted_def owning_def dispatch_def case_ALLOCA_def get_def Allocate_def malloc_def
        scan_malloc_def Assign_def set_top_def owner_state_def Let_def in_block_def
        cong: if_cong)
  have ne: "stack owner_state \<noteq> []"
    by (simp add: owner_state_def)
  have f: "fetch alloca_then_ret (last (stack owner_state)) =
      Some (\<lparr>op = RET, operand = []\<rparr>,
            \<lparr>allocas = [(5, \<lparr>base = 16, alloca_size = 16\<rparr>)], reg_values = [5 \<mapsto> 16],
              pc = \<lparr>pc_f = 4096, ib = 0, ii = 2\<rparr>\<rparr>)"
    by (simp add: fetch_def block_at_def alloca_then_ret_def block0_def owner_state_def)
  have o: "owned_bases (last (stack owner_state)) = [16]"
    by (simp add: owned_bases_def owner_state_def)
  have l: "live (heap owner_state) = [(16, 16)]"
    by (simp add: owner_state_def)
  from RET_releases_frame [OF sane_scan_malloc heap_ok_booted a ne f]
  have "\<exists>s'. ExecuteInstruction scan_malloc alloca_then_ret owner_state = Next s' \<and>
      stack s' = butlast (stack owner_state) \<and>
      (\<forall>b \<in> set (owned_bases (last (stack owner_state))). b \<notin> fst ` set (live (heap s'))) \<and>
      live (heap s') =
        filter (\<lambda>blk. fst blk \<notin> set (owned_bases (last (stack owner_state)))) (live (heap owner_state))"
    by simp
  then have "\<exists>s'. ExecuteInstruction scan_malloc alloca_then_ret owner_state = Next s' \<and>
      stack s' = [] \<and> 16 \<notin> fst ` set (live (heap s')) \<and> live (heap s') = []"
    unfolding o l by (simp add: owner_state_def)
  with a o l show ?thesis by simp
qed

text \<open>
  Claim C6. A CALL followed at once by the callee's RET leaves the caller's frame with the
  register map and the owned allocations it had before the CALL; the heap and the output
  are unchanged too. The callee starts with no register bound and owns nothing. Registers
  are local to a frame: no instruction changes a frame below the active one.
\<close>

theorem CALL_RET_preserves_caller:
  assumes "stack s \<noteq> []"
    and "fetch P (last (stack s)) = Some (i, ctx)" and "op i = CALL"
    and "get i 0 = Some f" and "f \<noteq> 0" and "P f = Some fn"
    and "fetch P \<lparr>allocas = [], reg_values = Map.empty,
                   pc = \<lparr>pc_f = f, ib = entry fn, ii = 0\<rparr>\<rparr> = Some (r, c)"
    and "op r = RET"
  shows "(\<exists>s1 s2. ExecuteInstruction m P s = Next s1 \<and>
            ExecuteInstruction m P s1 = Next s2 \<and>
            reg_values (last (stack s1)) = Map.empty \<and>
            allocas (last (stack s1)) = [] \<and>
            butlast (stack s1) = butlast (stack s) @ [ctx] \<and>
            stack s2 = butlast (stack s) @ [ctx] \<and>
            reg_values (last (stack s2)) = reg_values (last (stack s)) \<and>
            allocas (last (stack s2)) = allocas (last (stack s)) \<and>
            heap s2 = heap s \<and> cerr s2 = cerr s) \<and>
         (\<forall>t t'. ExecuteInstruction m P t = Next t' \<longrightarrow>
            take (length (stack t) - 1) (stack t') = butlast (stack t))"
proof -
  let ?new = "\<lparr>allocas = [], reg_values = Map.empty, pc = \<lparr>pc_f = f, ib = entry fn, ii = 0\<rparr>\<rparr>"
  let ?s1 = "s\<lparr>stack := butlast (stack s) @ [ctx, ?new]\<rparr>"
  let ?s2 = "s\<lparr>stack := butlast (stack s) @ [ctx]\<rparr>"
  have ctx: "allocas ctx = allocas (last (stack s))" "reg_values ctx = reg_values (last (stack s))"
    using fetch_frame [OF assms(2)] by simp_all
  have c: "allocas c = []"
    using fetch_frame [OF assms(7)] by simp
  have step1: "ExecuteInstruction m P s = Next ?s1"
    using assms(1-3) by (simp add: ExecuteInstruction_fetch dispatch_def case_CALL_def assms(4-6))
  have "ExecuteInstruction m P ?s1 = dispatch m P r c ?s1"
    using assms(7) by (simp add: ExecuteInstruction_def)
  also have "\<dots> = case_RET c ?s1"
    using assms(8) by (simp add: dispatch_def)
  also have "\<dots> = Next ?s2"
    by (simp add: case_RET_def c butlast_append)
  finally have step2: "ExecuteInstruction m P ?s1 = Next ?s2" .
  have "\<exists>s1 s2. ExecuteInstruction m P s = Next s1 \<and>
            ExecuteInstruction m P s1 = Next s2 \<and>
            reg_values (last (stack s1)) = Map.empty \<and>
            allocas (last (stack s1)) = [] \<and>
            butlast (stack s1) = butlast (stack s) @ [ctx] \<and>
            stack s2 = butlast (stack s) @ [ctx] \<and>
            reg_values (last (stack s2)) = reg_values (last (stack s)) \<and>
            allocas (last (stack s2)) = allocas (last (stack s)) \<and>
            heap s2 = heap s \<and> cerr s2 = cerr s"
    apply (rule exI [of _ ?s1])
    apply (rule exI [of _ ?s2])
    using step1 step2 ctx by (simp add: butlast_append)
  then show ?thesis
    using frames_below_untouched by blast
qed

theorem CALL_RET_preserves_caller_witness:
  "\<exists>s1 s2. ExecuteInstruction no_malloc caller_callee caller_state = Next s1 \<and>
           ExecuteInstruction no_malloc caller_callee s1 = Next s2 \<and>
           reg_values (last (stack s1)) = Map.empty \<and>
           allocas (last (stack s1)) = [] \<and>
           butlast (stack s1) = [fetched [(5, \<lparr>base = 12288, alloca_size = 16\<rparr>)] [1 \<mapsto> 1024]] \<and>
           stack s2 = [fetched [(5, \<lparr>base = 12288, alloca_size = 16\<rparr>)] [1 \<mapsto> 1024]] \<and>
           reg_values (last (stack s2)) = [1 \<mapsto> 1024] \<and>
           allocas (last (stack s2)) = [(5, \<lparr>base = 12288, alloca_size = 16\<rparr>)] \<and>
           heap s2 = \<lparr>live = [(12288, 16)], bytes = Map.empty\<rparr> \<and> cerr s2 = []"
  using CALL_RET_preserves_caller [where s = caller_state and P = caller_callee
        and i = "\<lparr>op = CALL, operand = [8192]\<rparr>"
        and ctx = "fetched [(5, \<lparr>base = 12288, alloca_size = 16\<rparr>)] [1 \<mapsto> 1024]"
        and f = 8192
        and fn = "\<lparr>name = ''Callee'', entry = 0,
                   basic_blocks = [0 \<mapsto> \<lparr>body = [\<lparr>op = RET, operand = []\<rparr>]\<rparr>]\<rparr>"
        and r = "\<lparr>op = RET, operand = []\<rparr>"
        and c = "\<lparr>allocas = [], reg_values = Map.empty, pc = \<lparr>pc_f = 8192, ib = 0, ii = 1\<rparr>\<rparr>"
        and m = no_malloc]
  by (simp add: caller_state_def owning_def caller_callee_def fetch_def block_at_def get_def
      fetched_def)

subsection \<open>Faults\<close>







end
